theory Spec2Isabelle
  imports Main "HOL-Library.Word" "HOL-Library.Signed_Division"
begin

chapter \<open>file-counter: the scanner package\<close>

text \<open>
  A shallow embedding of \<^verbatim>\<open>pkg/scanner/scanner.go\<close>: the pure helpers
  (\<^verbatim>\<open>ShouldSkipPath\<close>, \<^verbatim>\<open>FormatBytes\<close>), the path processor
  (\<^verbatim>\<open>ProcessPath\<close>) as a function on the scanner's fields, and the scan itself
  (\<^verbatim>\<open>Start\<close>, \<^verbatim>\<open>walkDirectory\<close>, \<^verbatim>\<open>worker\<close>, \<^verbatim>\<open>Stop\<close>) as an
  interleaving of atomic steps driven by a schedule.
\<close>

section \<open>Machine integers and text\<close>

text \<open>Go's \<^verbatim>\<open>int64\<close>: addition and multiplication wrap, \<open>sint\<close> reads the value.\<close>

type_synonym int64 = "64 word"

text \<open>Go's \<^verbatim>\<open>/\<close> on \<^verbatim>\<open>int64\<close> truncates towards zero (and wraps on overflow).\<close>

definition go_div :: "int64 \<Rightarrow> int64 \<Rightarrow> int64" where
  "go_div a b = word_of_int (sint a sdiv sint b)"

text \<open>The verb \<^verbatim>\<open>%d\<close> of \<^verbatim>\<open>fmt\<close>: decimal digits, with a minus sign for a negative value.\<close>

definition digit_char :: "nat \<Rightarrow> char" where
  "digit_char d = ''0123456789'' ! d"

fun string_of_nat :: "nat \<Rightarrow> string" where
  "string_of_nat n =
     (if n < 10 then [digit_char n] else string_of_nat (n div 10) @ [digit_char (n mod 10)])"

declare string_of_nat.simps [simp del]

definition string_of_int :: "int \<Rightarrow> string" where
  "string_of_int i = (if i < 0 then ''-'' @ string_of_nat (nat (- i)) else string_of_nat (nat i))"

text \<open>
  Indexing a Go string panics when the index is out of range; \<open>None\<close> is the panic.
\<close>

definition string_index :: "string \<Rightarrow> nat \<Rightarrow> char option" where
  "string_index s i = (if i < length s then Some (s ! i) else None)"

section \<open>IEEE 754 binary64, as far as the package uses it\<close>

text \<open>
  A \<^verbatim>\<open>float64\<close> is a finite value, an infinity or a NaN. \<open>Finite p q\<close> is the
  value \<open>p / q\<close>, with \<open>0 < q\<close> (the sign of zero is not kept: nothing below can tell
  the two zeros apart). Every operation computes the exact quotient of two integers and
  rounds it to the nearest value that binary64 represents, ties to the even
  significand: 53 significant bits, least exponent \<open>-1074\<close>, overflow to an infinity
  from \<open>2 ^ 1024\<close>.
\<close>

datatype float64 = Finite int int | PosInf | NegInf | NaN

text \<open>\<open>p / q\<close> rounded to the nearest integer, ties to even, for \<open>0 \<le> p\<close> and \<open>0 < q\<close>.\<close>

definition rne_div :: "int \<Rightarrow> int \<Rightarrow> int" where
  "rne_div p q =
     (let f = p div q; r = p mod q
      in if 2 * r < q then f else if q < 2 * r then f + 1 else if even f then f else f + 1)"

text \<open>The number of binary digits of a natural number.\<close>

fun bit_length :: "nat \<Rightarrow> nat" where
  "bit_length n = (if n = 0 then 0 else Suc (bit_length (n div 2)))"

declare bit_length.simps [simp del]

text \<open>
  The binary exponent of \<open>p / q\<close> for positive \<open>p\<close> and \<open>q\<close>: the \<open>d\<close> with
  \<open>2 ^ d \<le> p / q < 2 ^ (d + 1)\<close>, which is the difference of the two bit lengths or
  one less.
\<close>

definition frac_exponent :: "int \<Rightarrow> int \<Rightarrow> int" where
  "frac_exponent p q =
     (let d = int (bit_length (nat p)) - int (bit_length (nat q))
      in if (if 0 \<le> d then q * 2 ^ nat d \<le> p else q \<le> p * 2 ^ nat (- d)) then d else d - 1)"

text \<open>
  Rounding \<open>p / q\<close> (\<open>0 < q\<close>) to binary64: the significand \<open>m\<close> is the quotient
  scaled to the exponent \<open>e\<close> and rounded, the result is \<open>m * 2 ^ e\<close> with the sign of
  \<open>p\<close>.
\<close>

definition f64_round :: "int \<Rightarrow> int \<Rightarrow> float64" where
  "f64_round p q =
     (if p = 0 then Finite 0 1
      else let a = \<bar>p\<bar>;
               e = max (frac_exponent a q - 52) (- 1074);
               m = (if 0 \<le> e then rne_div a (q * 2 ^ nat e) else rne_div (a * 2 ^ nat (- e)) q)
           in if 0 \<le> e \<and> 2 ^ 1024 \<le> m * 2 ^ nat e then (if 0 < p then PosInf else NegInf)
              else if 0 \<le> e then Finite (sgn p * m * 2 ^ nat e) 1
              else Finite (sgn p * m) (2 ^ nat (- e)))"

text \<open>The conversion \<^verbatim>\<open>float64(n)\<close> of an \<^verbatim>\<open>int64\<close>.\<close>

definition f64_of_int64 :: "int64 \<Rightarrow> float64" where
  "f64_of_int64 n = f64_round (sint n) 1"

fun f64_div :: "float64 \<Rightarrow> float64 \<Rightarrow> float64" where
  "f64_div (Finite p1 q1) (Finite p2 q2) =
     (if p2 = 0 then (if p1 = 0 then NaN else if 0 < p1 then PosInf else NegInf)
      else f64_round (p1 * q2 * sgn p2) (q1 * \<bar>p2\<bar>))"
| "f64_div (Finite p1 q1) PosInf = Finite 0 1"
| "f64_div (Finite p1 q1) NegInf = Finite 0 1"
| "f64_div PosInf (Finite p2 q2) = (if 0 \<le> p2 then PosInf else NegInf)"
| "f64_div NegInf (Finite p2 q2) = (if 0 \<le> p2 then NegInf else PosInf)"
| "f64_div x y = NaN"

fun f64_add :: "float64 \<Rightarrow> float64 \<Rightarrow> float64" where
  "f64_add (Finite p1 q1) (Finite p2 q2) = f64_round (p1 * q2 + p2 * q1) (q1 * q2)"
| "f64_add NaN y = NaN"
| "f64_add x NaN = NaN"
| "f64_add PosInf NegInf = NaN"
| "f64_add NegInf PosInf = NaN"
| "f64_add PosInf y = PosInf"
| "f64_add NegInf y = NegInf"
| "f64_add x PosInf = PosInf"
| "f64_add x NegInf = NegInf"

text \<open>
  The verb \<^verbatim>\<open>%.1f\<close>: the exact value rounded to one decimal, ties to the even
  digit, printed with at least one digit before the point.
\<close>

fun fmt_1f :: "float64 \<Rightarrow> string" where
  "fmt_1f (Finite p q) =
     (let r = rne_div (\<bar>p\<bar> * 10) q
      in (if p < 0 then ''-'' else []) @ string_of_nat (nat (r div 10)) @ ''.'' @
         [digit_char (nat (r mod 10))])"
| "fmt_1f PosInf = ''+Inf''"
| "fmt_1f NegInf = ''-Inf''"
| "fmt_1f NaN = ''NaN''"

section \<open>The path classifier: \<^verbatim>\<open>ShouldSkipPath\<close>\<close>

definition skipPaths :: "string list" where
  "skipPaths =
     [''/proc'', ''/sys'', ''/dev'', ''/run'', ''/tmp'', ''/var/run'', ''/var/lock'', ''/var/tmp'']"

text \<open>
  \<^verbatim>\<open>filepath.HasPrefix\<close> on Unix is \<^verbatim>\<open>strings.HasPrefix\<close>:
  \<^verbatim>\<open>len(s) >= len(prefix) && s[:len(prefix)] == prefix\<close>.
\<close>

definition HasPrefix :: "string \<Rightarrow> string \<Rightarrow> bool" where
  "HasPrefix s pre = (length pre \<le> length s \<and> take (length pre) s = pre)"

text \<open>The \<^verbatim>\<open>for ... range skipPaths\<close> loop, returning at the first match.\<close>

fun skip_loop :: "string \<Rightarrow> string list \<Rightarrow> bool" where
  "skip_loop path [] = False"
| "skip_loop path (skipPath # rest) =
     (if path = skipPath \<or> HasPrefix path (skipPath @ ''/'') then True
      else skip_loop path rest)"

definition ShouldSkipPath :: "string \<Rightarrow> bool" where
  "ShouldSkipPath path = skip_loop path skipPaths"

section \<open>The byte formatter: \<^verbatim>\<open>FormatBytes\<close>\<close>

text \<open>
  The loop \<^verbatim>\<open>for n := bytes / unit; n >= unit; n /= unit { div *= unit; exp++ }\<close>,
  on the triple \<open>(n, div, exp)\<close>; it returns \<open>(div, exp)\<close>.
\<close>

function fb_loop :: "int64 \<Rightarrow> int64 \<Rightarrow> nat \<Rightarrow> int64 \<times> nat" where
  "fb_loop n dv ex =
     (if 1024 \<le>s n then fb_loop (go_div n 1024) (dv * 1024) (Suc ex) else (dv, ex))"
  by pat_completeness auto

lemma sint_word_of_int_64:
  "0 \<le> k \<Longrightarrow> k < 2 ^ 63 \<Longrightarrow> sint (word_of_int k :: int64) = k"
  by (simp add: sint_sbintrunc' signed_take_bit_int_eq_self)

lemma sint_go_div_1024:
  assumes "0 \<le> sint n"
  shows "sint (go_div n 1024) = sint n div 1024"
proof -
  have lt: "sint n < 2 ^ 63"
    using sint_less [of n] by simp
  have "sint n sdiv 1024 = sint n div 1024"
    using assms by (simp add: signed_divide_int_def sgn_if)
  moreover have "0 \<le> sint n div 1024" "sint n div 1024 < 2 ^ 63"
    using assms lt by (simp_all add: pos_imp_zdiv_nonneg_iff int_div_le_self le_less_trans)
  ultimately show ?thesis
    by (simp add: go_div_def sint_word_of_int_64)
qed

termination fb_loop
proof (relation "measure (\<lambda>(n, dv, ex). nat (sint n))")
  show "wf (measure (\<lambda>(n, dv, ex). nat (sint n)))"
    by simp
next
  fix n dv :: int64 and ex :: nat
  assume "1024 \<le>s n"
  then have ge: "1024 \<le> sint n"
    by (simp add: word_sle_eq)
  then have "sint (go_div n 1024) = sint n div 1024"
    by (simp add: sint_go_div_1024)
  moreover have "sint n div 1024 < sint n"
    using ge by (simp add: int_div_less_self)
  ultimately show "((go_div n 1024, dv * 1024, Suc ex), (n, dv, ex))
      \<in> measure (\<lambda>(n, dv, ex). nat (sint n))"
    using ge by simp
qed

declare fb_loop.simps [simp del]

definition FormatBytes :: "int64 \<Rightarrow> string option" where
  "FormatBytes bytes =
     (if bytes <s 1024 then Some (string_of_int (sint bytes) @ '' B'')
      else let (dv, ex) = fb_loop (go_div bytes 1024) 1024 0
           in case string_index ''KMGTPE'' ex of
                None \<Rightarrow> None
              | Some c \<Rightarrow>
                  Some (fmt_1f (f64_div (f64_of_int64 bytes) (f64_of_int64 dv)) @ '' '' @ [c] @ ''B''))"

section \<open>The scanner's fields and the path processor\<close>

text \<open>
  What \<^verbatim>\<open>os.Lstat\<close> returns for a path: the error (its \<^verbatim>\<open>Error()\<close> text, which is
  what \<^verbatim>\<open>%v\<close> prints) or the \<^verbatim>\<open>FileInfo\<close>, of which the package reads
  \<^verbatim>\<open>IsDir()\<close> and \<^verbatim>\<open>Size()\<close>.
\<close>

record FileInfo =
  IsDir :: bool
  Size :: int64

type_synonym filesystem = "string \<Rightarrow> string + FileInfo"

text \<open>
  The struct \<^verbatim>\<open>Scanner\<close>. The context \<^verbatim>\<open>ctx\<close> with its \<^verbatim>\<open>cancel\<close> function is the
  flag \<open>cancelled\<close> (whether \<^verbatim>\<open>ctx.Done()\<close> is closed); \<open>startTime\<close> is a reading
  of the clock in nanoseconds. The mutex and the ticker hold no data of the scan.
\<close>

record Scanner =
  fileCount :: int64
  dirCount :: int64
  errorCount :: int64
  skippedCount :: int64
  bytesScanned :: int64
  startTime :: int
  cancelled :: bool
  workerCount :: nat
  lastError :: string
  currentPath :: string

text \<open>
  \<^verbatim>\<open>NewScanner\<close> reads the clock (\<open>now\<close>) and \<^verbatim>\<open>runtime.GOMAXPROCS(0)\<close>
  (\<open>gomaxprocs\<close>); every other field has Go's zero value.
\<close>

definition NewScanner :: "int \<Rightarrow> nat \<Rightarrow> Scanner" where
  "NewScanner now gomaxprocs =
     \<lparr>fileCount = 0, dirCount = 0, errorCount = 0, skippedCount = 0, bytesScanned = 0,
      startTime = now, cancelled = False, workerCount = gomaxprocs * 2,
      lastError = [], currentPath = []\<rparr>"

definition setCurrentPath :: "string \<Rightarrow> Scanner \<Rightarrow> Scanner" where
  "setCurrentPath path s = s\<lparr>currentPath := path\<rparr>"

definition setLastError :: "string \<Rightarrow> Scanner \<Rightarrow> Scanner" where
  "setLastError err s = s\<lparr>lastError := err\<rparr>"

text \<open>\<^verbatim>\<open>Stop\<close> calls \<^verbatim>\<open>s.cancel()\<close>, which closes \<^verbatim>\<open>ctx.Done()\<close>.\<close>

definition Stop :: "Scanner \<Rightarrow> Scanner" where
  "Stop s = s\<lparr>cancelled := True\<rparr>"

definition ProcessPath :: "filesystem \<Rightarrow> string \<Rightarrow> Scanner \<Rightarrow> Scanner" where
  "ProcessPath Lstat path s =
     (case Lstat path of
        Inl err \<Rightarrow>
          setLastError (''Error getting info for '' @ path @ '': '' @ err)
            (s\<lparr>errorCount := errorCount s + 1\<rparr>)
      | Inr info \<Rightarrow>
          let s1 = (if IsDir info then s\<lparr>dirCount := dirCount s + 1\<rparr>
                    else let s0 = s\<lparr>fileCount := fileCount s + 1\<rparr>
                         in s0\<lparr>bytesScanned := bytesScanned s0 + Size info\<rparr>)
          in if ShouldSkipPath path then s1\<lparr>skippedCount := skippedCount s1 + 1\<rparr> else s1)"

section \<open>What \<^verbatim>\<open>filepath.Walk\<close> finds\<close>

text \<open>
  The tree under the root as \<^verbatim>\<open>filepath.Walk\<close> finds it during the walk. For each
  name it takes from a directory, \<^verbatim>\<open>Walk\<close> calls \<^verbatim>\<open>lstat\<close>:
  \<^item> \<open>NoStat err\<close>: the \<^verbatim>\<open>lstat\<close> fails with this error;
  \<^item> \<open>File\<close>: it succeeds and the entry is not a directory;
  \<^item> \<open>Dir entries\<close>: a directory whose names \<^verbatim>\<open>readDirNames\<close> returns (sorted), each
    with what is found under it;
  \<^item> \<open>DirNoRead err hidden\<close>: a directory that \<^verbatim>\<open>readDirNames\<close> fails to read, with
    the entries that lie in it, which \<^verbatim>\<open>Walk\<close> never learns of.
\<close>

datatype fsnode =
    NoStat string
  | File
  | Dir "(string \<times> fsnode) list"
  | DirNoRead string "(string \<times> fsnode) list"



fun reachable :: "fsnode \<Rightarrow> nat" where
  "reachable (Dir cs) = Suc (sum_list (map (\<lambda>c. reachable (snd c)) cs))"
| "reachable node = 1"

text \<open>
  \<^verbatim>\<open>filepath.Clean\<close> on Unix, on the elements of the path between its separators:
  empty elements and \<^verbatim>\<open>.\<close> are dropped; \<^verbatim>\<open>..\<close> removes the element before it,
  is dropped at the root, and is kept at the start of a path that is not rooted; the
  empty result is \<^verbatim>\<open>.\<close>.
\<close>

fun split_slash :: "string \<Rightarrow> string list" where
  "split_slash [] = [[]]"
| "split_slash (c # cs) =
     (if c = CHR ''/'' then [] # split_slash cs
      else case split_slash cs of
             [] \<Rightarrow> [[c]]
           | x # xs \<Rightarrow> (c # x) # xs)"

fun join_slash :: "string list \<Rightarrow> string" where
  "join_slash [] = []"
| "join_slash [x] = x"
| "join_slash (x # y # ys) = x @ ''/'' @ join_slash (y # ys)"

fun clean_elems :: "bool \<Rightarrow> string list \<Rightarrow> string list \<Rightarrow> string list" where
  "clean_elems rooted out [] = rev out"
| "clean_elems rooted out (e # es) =
     (if e = [] \<or> e = ''.'' then clean_elems rooted out es
      else if e = ''..'' then
        (case out of
           [] \<Rightarrow> if rooted then clean_elems rooted [] es else clean_elems rooted [e] es
         | last_elem # below \<Rightarrow>
             if last_elem = ''..'' then clean_elems rooted (e # out) es
             else clean_elems rooted below es)
      else clean_elems rooted (e # out) es)"

definition Clean :: "string \<Rightarrow> string" where
  "Clean path =
     (let rooted = (case path of [] \<Rightarrow> False | c # cs \<Rightarrow> c = CHR ''/'');
          out = (if rooted then ''/'' else []) @
                join_slash (clean_elems rooted [] (split_slash path))
      in if out = [] then ''.'' else out)"

text \<open>
  \<^verbatim>\<open>filepath.Join\<close> of a directory path and a name: from the first element that is
  not empty on, the elements joined by the separator and cleaned.
\<close>

definition Join :: "string \<Rightarrow> string \<Rightarrow> string" where
  "Join dir name =
     (if dir \<noteq> [] then Clean (dir @ ''/'' @ name)
      else if name \<noteq> [] then Clean name
      else [])"

text \<open>
  The file-system calls of \<^verbatim>\<open>Walk\<close>, logged in order. Before it calls the walk
  function for an entry, \<^verbatim>\<open>Walk\<close> has called \<^verbatim>\<open>lstat\<close> on it and, for a
  directory, \<^verbatim>\<open>readDirNames\<close>; the error of either is the \<^verbatim>\<open>err\<close> it passes.
\<close>

datatype fsop = OpLstat string | OpReadDir string

fun walk_ops :: "string \<Rightarrow> fsnode \<Rightarrow> fsop list" where
  "walk_ops path (NoStat err) = [OpLstat path]"
| "walk_ops path File = [OpLstat path]"
| "walk_ops path (Dir cs) = [OpLstat path, OpReadDir path]"
| "walk_ops path (DirNoRead err hidden) = [OpLstat path, OpReadDir path]"

fun walk_err :: "fsnode \<Rightarrow> string option" where
  "walk_err (NoStat err) = Some err"
| "walk_err File = None"
| "walk_err (Dir cs) = None"
| "walk_err (DirNoRead err hidden) = Some err"

text \<open>
  The work \<^verbatim>\<open>Walk\<close> has left: one frame for each directory it is inside of, holding
  the entries of that directory not yet visited, each with its path; the bottom frame
  holds the root. \<open>next_entry\<close> returns from the directories that are done and takes
  the next entry; \<open>None\<close> means that \<^verbatim>\<open>Walk\<close> returns.
\<close>

type_synonym frames = "(string \<times> fsnode) list list"

fun next_entry :: "frames \<Rightarrow> ((string \<times> fsnode) \<times> frames) option" where
  "next_entry [] = None"
| "next_entry ([] # fr) = next_entry fr"
| "next_entry ((e # es) # fr) = Some (e, es # fr)"

text \<open>
  What \<^verbatim>\<open>Walk\<close> does when the walk function returns for the entry at \<open>path\<close>, with
  \<open>skip\<close> for \<^verbatim>\<open>filepath.SkipDir\<close> and \<open>\<not> skip\<close> for \<^verbatim>\<open>nil\<close> (the walk function of
  this package returns nothing else); \<open>fr\<close> has the siblings still to visit on top.
  \<^item> After a failed \<^verbatim>\<open>lstat\<close>, \<^verbatim>\<open>SkipDir\<close> is ignored and the loop goes on.
  \<^item> After a non-directory, \<^verbatim>\<open>SkipDir\<close> makes the walk of the containing directory
    return: the remaining siblings are dropped.
  \<^item> After a directory that was read, \<^verbatim>\<open>nil\<close> descends into its entries and
    \<^verbatim>\<open>SkipDir\<close> skips them.
  \<^item> After a directory that could not be read there is nothing to descend into.
\<close>

fun resume :: "bool \<Rightarrow> string \<Rightarrow> fsnode \<Rightarrow> frames \<Rightarrow> frames" where
  "resume skip path (NoStat err) fr = fr"
| "resume skip path File fr = (if skip then tl fr else fr)"
| "resume skip path (Dir cs) fr =
     (if skip then fr else map (\<lambda>c. (Join path (fst c), snd c)) cs # fr)"
| "resume skip path (DirNoRead err hidden) fr = fr"

section \<open>The walk function of \<^verbatim>\<open>walkDirectory\<close>\<close>

text \<open>
  The function literal passed to \<^verbatim>\<open>filepath.Walk\<close>, up to its second
  \<^verbatim>\<open>select\<close>: it returns \<^verbatim>\<open>SkipDir\<close> when the context is done, counts and records
  the error and returns \<^verbatim>\<open>nil\<close> when \<^verbatim>\<open>err != nil\<close>, and otherwise records the
  current path and goes on to the \<^verbatim>\<open>select\<close> that sends the path.
\<close>

datatype walkfn = Return bool | Select

definition walkFn_enter :: "string \<Rightarrow> string option \<Rightarrow> Scanner \<Rightarrow> walkfn \<times> Scanner" where
  "walkFn_enter path err s =
     (if cancelled s then (Return True, s)
      else case err of
             Some e \<Rightarrow>
               (Return False,
                setLastError (''Error accessing '' @ path @ '': '' @ e)
                  (s\<lparr>errorCount := errorCount s + 1\<rparr>))
           | None \<Rightarrow> (Select, setCurrentPath path s))"

section \<open>One scan as an interleaving of steps\<close>

text \<open>
  \<^verbatim>\<open>Start\<close> runs the walker goroutine and \<open>workerCount\<close> worker goroutines over the
  shared \<^verbatim>\<open>Scanner\<close> and the channel \<^verbatim>\<open>pathChan\<close> (buffered, capacity 1000). The
  state of a scan holds the scanner, where the walker stands, the channel's buffer
  and whether it is closed, and for each worker whether it is still running (the
  wait group counts these). Three logs record what happened: the file-system calls of
  \<^verbatim>\<open>Walk\<close>, the paths the walk function was called with, and the paths sent.

  The walker is between two calls of the walk function (\<open>Walking\<close>), inside one at
  the \<^verbatim>\<open>select\<close> that sends the path (\<open>Sending\<close>), or has returned and closed the
  channel (\<open>Returned\<close>). The progress reporter only reads the scanner and is left out.
\<close>

datatype walker = Walking frames | Sending string fsnode frames | Returned

record scan =
  sc :: Scanner
  walker :: walker
  pathChan :: "string list"
  chanClosed :: bool
  workers :: "bool list"
  fsops :: "fsop list"
  visited :: "string list"
  sent :: "string list"

text \<open>
  A schedule is the order in which the goroutines take their steps. Each step is
  atomic: a call of the walk function up to its send, the send, or one receive with
  the \<^verbatim>\<open>ProcessPath\<close> that follows it (whose updates are atomic additions to the
  counters and a write of \<open>lastError\<close> under the mutex). Where a \<^verbatim>\<open>select\<close> has
  both cases ready, Go picks one at random: the step carries the pick (\<open>True\<close> for
  the channel operation, \<open>False\<close> for \<^verbatim>\<open>ctx.Done()\<close>).
  A worker's step carries the file system as \<^verbatim>\<open>os.Lstat\<close> finds it at that moment.
  \<open>StopCall\<close> is a call of \<^verbatim>\<open>Stop\<close> from another goroutine.
\<close>

datatype action = WalkerStep bool | WorkerStep nat bool filesystem | StopCall

definition walkDirectory_step :: "bool \<Rightarrow> scan \<Rightarrow> scan" where
  "walkDirectory_step pick st =
     (case walker st of
        Returned \<Rightarrow> st
      | Walking fr \<Rightarrow>
          (case next_entry fr of
             None \<Rightarrow> st\<lparr>walker := Returned, chanClosed := True\<rparr>
           | Some ((path, node), fr') \<Rightarrow>
               (case walkFn_enter path (walk_err node) (sc st) of
                  (Return skip, s') \<Rightarrow>
                    st\<lparr>sc := s', walker := Walking (resume skip path node fr'),
                       fsops := fsops st @ walk_ops path node, visited := visited st @ [path]\<rparr>
                | (Select, s') \<Rightarrow>
                    st\<lparr>sc := s', walker := Sending path node fr',
                       fsops := fsops st @ walk_ops path node, visited := visited st @ [path]\<rparr>))
      | Sending path node fr \<Rightarrow>
          if length (pathChan st) < 1000 \<and> (\<not> cancelled (sc st) \<or> pick)
          then st\<lparr>walker := Walking (resume False path node fr),
                  pathChan := pathChan st @ [path], sent := sent st @ [path]\<rparr>
          else if cancelled (sc st) then st\<lparr>walker := Walking (resume True path node fr)\<rparr>
          else st)"

text \<open>
  One iteration of the loop of \<^verbatim>\<open>worker\<close>: the receive is ready when the buffer
  holds a path or the channel is closed (a closed, drained channel gives
  \<^verbatim>\<open>!ok\<close> and the worker returns); without a ready case the worker blocks.
\<close>

definition worker_step :: "nat \<Rightarrow> bool \<Rightarrow> filesystem \<Rightarrow> scan \<Rightarrow> scan" where
  "worker_step i pick Lstat st =
     (if i < length (workers st) \<and> workers st ! i
      then if (pathChan st \<noteq> [] \<or> chanClosed st) \<and> (\<not> cancelled (sc st) \<or> pick)
           then (case pathChan st of
                   [] \<Rightarrow> st\<lparr>workers := (workers st)[i := False]\<rparr>
                 | path # rest \<Rightarrow> st\<lparr>sc := ProcessPath Lstat path (sc st), pathChan := rest\<rparr>)
           else if cancelled (sc st) then st\<lparr>workers := (workers st)[i := False]\<rparr>
           else st
      else st)"

fun step :: "action \<Rightarrow> scan \<Rightarrow> scan" where
  "step (WalkerStep pick) st = walkDirectory_step pick st"
| "step (WorkerStep i pick Lstat) st = worker_step i pick Lstat st"
| "step StopCall st = st\<lparr>sc := Stop (sc st)\<rparr>"

fun run :: "action list \<Rightarrow> scan \<Rightarrow> scan" where
  "run [] st = st"
| "run (a # as) st = run as (step a st)"

section \<open>\<^verbatim>\<open>Start\<close> and its result\<close>

record ScanResult =
  TotalFiles :: int64
  TotalDirs :: int64
  TotalErrors :: int64
  TotalSkipped :: int64
  TotalBytes :: int64
  Duration :: int
  FilesPerSecond :: float64

text \<open>
  \<^verbatim>\<open>time.Since(t)\<close> at the clock reading \<open>now\<close>: the difference in nanoseconds,
  saturated to the range of \<^verbatim>\<open>int64\<close>.
\<close>

definition time_Since :: "int \<Rightarrow> int \<Rightarrow> int" where
  "time_Since now t = max (- (2 ^ 63)) (min (2 ^ 63 - 1) (now - t))"

text \<open>
  \<^verbatim>\<open>Duration.Seconds\<close>: \<^verbatim>\<open>float64(d / Second) + float64(d % Second) / 1e9\<close>, with Go's
  truncating division and remainder.
\<close>

definition Seconds :: "int \<Rightarrow> float64" where
  "Seconds d =
     f64_add (f64_round (d sdiv 1000000000) 1)
       (f64_div (f64_round (d smod 1000000000) 1) (Finite 1000000000 1))"

text \<open>The state in which \<^verbatim>\<open>Start\<close> launches the goroutines.\<close>

definition Start_init :: "Scanner \<Rightarrow> string \<Rightarrow> fsnode \<Rightarrow> scan" where
  "Start_init s rootPath tree =
     \<lparr>sc = s, walker = Walking [[(rootPath, tree)]], pathChan = [], chanClosed = False,
      workers = replicate (workerCount s) True, fsops = [], visited = [], sent = []\<rparr>"

text \<open>\<^verbatim>\<open>wg.Wait()\<close> returns when every worker has returned.\<close>

definition wg_done :: "scan \<Rightarrow> bool" where
  "wg_done st = (True \<notin> set (workers st))"

definition Start_result :: "int \<Rightarrow> scan \<Rightarrow> ScanResult" where
  "Start_result now st =
     (let duration = time_Since now (startTime (sc st));
          filesPerSecond = f64_div (f64_of_int64 (fileCount (sc st))) (Seconds duration)
      in \<lparr>TotalFiles = fileCount (sc st), TotalDirs = dirCount (sc st),
          TotalErrors = errorCount (sc st), TotalSkipped = skippedCount (sc st),
          TotalBytes = bytesScanned (sc st), Duration = duration,
          FilesPerSecond = filesPerSecond\<rparr>)"

text \<open>
  \<^verbatim>\<open>Start\<close> on the tree that \<^verbatim>\<open>Walk\<close> finds under \<open>rootPath\<close>, under a schedule:
  the result it returns when the wait group is done after that schedule, with \<open>now\<close>
  the clock reading at that moment; \<open>None\<close> when it is still waiting.
\<close>

definition Start :: "Scanner \<Rightarrow> string \<Rightarrow> fsnode \<Rightarrow> action list \<Rightarrow> int \<Rightarrow> ScanResult option" where
  "Start s rootPath tree sched now =
     (let st = run sched (Start_init s rootPath tree)
      in if wg_done st then Some (Start_result now st) else None)"

section \<open>Bookkeeping of a scan\<close>

text \<open>
  Measures on the state of a scan, for the proofs: the entries in the walker's frames,
  the entries the walk function has not been called with yet, whether a path waits at
  the walker's send, and the sum of the three counters a path can end in.
\<close>

definition frames_entries :: "frames \<Rightarrow> nat" where
  "frames_entries fr = sum_list (map (\<lambda>f. sum_list (map (\<lambda>c. reachable (snd c)) f)) fr)"

fun unvisited :: "walker \<Rightarrow> nat" where
  "unvisited (Walking fr) = frames_entries fr"
| "unvisited (Sending path node fr) = reachable node - 1 + frames_entries fr"
| "unvisited Returned = 0"

fun in_flight :: "walker \<Rightarrow> nat" where
  "in_flight (Sending path node fr) = 1"
| "in_flight w = 0"

definition counted :: "Scanner \<Rightarrow> int64" where
  "counted s = fileCount s + dirCount s + errorCount s"

text \<open>
  What holds of a scan as long as nobody calls \<^verbatim>\<open>Stop\<close>, for a tree of which
  \<^verbatim>\<open>Walk\<close> reaches \<open>K\<close> entries:
  every entry is visited or still to visit; every visited entry is counted, in the
  channel, or at the walker's send; the channel is closed only after the walk; a
  worker returns only from the closed, drained channel.
\<close>

definition scan_inv :: "nat \<Rightarrow> scan \<Rightarrow> bool" where
  "scan_inv K st \<longleftrightarrow>
     \<not> cancelled (sc st)
     \<and> length (visited st) + unvisited (walker st) = K
     \<and> counted (sc st) + of_nat (length (pathChan st)) + of_nat (in_flight (walker st))
         = of_nat (length (visited st))
     \<and> (chanClosed st \<longrightarrow> walker st = Returned)
     \<and> (False \<in> set (workers st) \<longrightarrow> chanClosed st \<and> pathChan st = [])"

section \<open>Example trees and schedules\<close>

text \<open>
  A root \<^verbatim>\<open>/r\<close> with a file \<^verbatim>\<open>f\<close> and a name \<^verbatim>\<open>g\<close> whose \<^verbatim>\<open>lstat\<close> fails;
  a file system for the workers; a schedule under which the scan completes.
\<close>

definition demo_tree :: fsnode where
  "demo_tree = Dir [(''f'', File), (''g'', NoStat ''lstat /r/g: permission denied'')]"

definition demo_fs :: filesystem where
  "demo_fs path =
     (if path = ''/r'' then Inr \<lparr>IsDir = True, Size = 4096\<rparr>
      else if path = ''/r/f'' then Inr \<lparr>IsDir = False, Size = 12\<rparr>
      else Inl (''lstat '' @ path @ '': no such file or directory''))"

definition demo_sched :: "action list" where
  "demo_sched =
     [WalkerStep True, WalkerStep True, WorkerStep 0 True demo_fs, WalkerStep True,
      WalkerStep True, WalkerStep True, WalkerStep True, WorkerStep 1 True demo_fs,
      WorkerStep 0 True demo_fs, WorkerStep 1 True demo_fs, WorkerStep 2 True demo_fs,
      WorkerStep 3 True demo_fs]"

text \<open>
  A root with a directory that cannot be read, a name whose \<^verbatim>\<open>lstat\<close> fails and a
  file; the schedule runs the walker alone until \<^verbatim>\<open>Walk\<close> returns.
\<close>

definition failing_tree :: fsnode where
  "failing_tree =
     Dir [(''a'', DirNoRead ''open /r/a: permission denied'' [(''x'', File)]),
          (''b'', NoStat ''lstat /r/b: no such file or directory''),
          (''c'', File)]"

definition walk_only :: "action list" where
  "walk_only =
     [WalkerStep True, WalkerStep True, WalkerStep True, WalkerStep True, WalkerStep True,
      WalkerStep True, WalkerStep True]"



text \<open>
  A root with two directories of one file each; under the schedule the walker visits
  and sends the root, then \<^verbatim>\<open>Stop\<close> is called.
\<close>

definition cancel_tree :: fsnode where
  "cancel_tree = Dir [(''a'', Dir [(''x'', File)]), (''b'', Dir [(''y'', File)])]"

definition cancel_sched :: "action list" where
  "cancel_sched = [WalkerStep True, WalkerStep True, StopCall]"

section \<open>Evaluation rules\<close>

lemma bit_length_0: "bit_length 0 = 0"
  by (simp add: bit_length.simps)

lemma bit_length_Suc_0: "bit_length (Suc 0) = 1"
  by (simp add: bit_length.simps [of "Suc 0"] bit_length_0)

lemma bit_length_numeral: "bit_length (numeral k) = Suc (bit_length (numeral k div 2))"
  by (simp add: bit_length.simps [of "numeral k"])

lemma string_of_nat_0: "string_of_nat 0 = ''0''"
  by (simp add: string_of_nat.simps digit_char_def)

lemma string_of_nat_Suc_0: "string_of_nat (Suc 0) = ''1''"
  by (simp add: string_of_nat.simps digit_char_def)

lemma string_of_nat_numeral:
  "string_of_nat (numeral k) =
     (if numeral k < (10::nat) then [digit_char (numeral k)]
      else string_of_nat (numeral k div 10) @ [digit_char (numeral k mod 10)])"
  by (rule string_of_nat.simps)

lemmas f64_eval = f64_of_int64_def f64_round_def frac_exponent_def rne_div_def Let_def
  bit_length_0 bit_length_Suc_0 bit_length_numeral

lemmas str_eval = string_of_int_def string_of_nat_0 string_of_nat_Suc_0 string_of_nat_numeral
  digit_char_def

section \<open>The path classifier is the denylist test\<close>

lemma HasPrefix_iff: "HasPrefix s pre \<longleftrightarrow> (\<exists>rest. s = pre @ rest)"
proof
  assume "HasPrefix s pre"
  then have "s = pre @ drop (length pre) s"
    by (metis HasPrefix_def append_take_drop_id)
  then show "\<exists>rest. s = pre @ rest" ..
next
  assume "\<exists>rest. s = pre @ rest"
  then show "HasPrefix s pre"
    by (auto simp: HasPrefix_def)
qed

lemma skip_loop_iff:
  "skip_loop path xs \<longleftrightarrow> (\<exists>e \<in> set xs. path = e \<or> HasPrefix path (e @ ''/''))"
  by (induction xs) auto

text \<open>
  Claim C5. \<^verbatim>\<open>ShouldSkipPath\<close> is true exactly when the path is one of the eight
  denylist entries or starts with an entry followed by the separator \<^verbatim>\<open>/\<close>. It is a
  function of the string alone. It holds of \<^verbatim>\<open>/proc\<close>, \<^verbatim>\<open>/proc/cpuinfo\<close>,
  \<^verbatim>\<open>/sys\<close>, \<^verbatim>\<open>/dev/null\<close> and \<^verbatim>\<open>/var/tmp\<close>, and not of \<^verbatim>\<open>/home\<close>, \<^verbatim>\<open>/etc\<close>
  and \<^verbatim>\<open>/var/log\<close>.
\<close>

theorem ShouldSkipPath_denylist:
  "(ShouldSkipPath p \<longleftrightarrow>
      (\<exists>e \<in> set [''/proc'', ''/sys'', ''/dev'', ''/run'', ''/tmp'', ''/var/run'', ''/var/lock'',
                   ''/var/tmp''].
         p = e \<or> (\<exists>rest. p = e @ ''/'' @ rest)))
   \<and> ShouldSkipPath ''/proc'' \<and> ShouldSkipPath ''/proc/cpuinfo'' \<and> ShouldSkipPath ''/sys''
   \<and> ShouldSkipPath ''/dev/null'' \<and> ShouldSkipPath ''/var/tmp''
   \<and> \<not> ShouldSkipPath ''/home'' \<and> \<not> ShouldSkipPath ''/etc'' \<and> \<not> ShouldSkipPath ''/var/log''"
proof -
  have "ShouldSkipPath p \<longleftrightarrow>
      (\<exists>e \<in> set skipPaths. p = e \<or> (\<exists>rest. p = e @ ''/'' @ rest))"
    unfolding ShouldSkipPath_def skip_loop_iff HasPrefix_iff by simp
  moreover have "ShouldSkipPath ''/proc''" "ShouldSkipPath ''/proc/cpuinfo''"
    "ShouldSkipPath ''/sys''" "ShouldSkipPath ''/dev/null''" "ShouldSkipPath ''/var/tmp''"
    "\<not> ShouldSkipPath ''/home''" "\<not> ShouldSkipPath ''/etc''" "\<not> ShouldSkipPath ''/var/log''"
    by (simp_all add: ShouldSkipPath_def skipPaths_def HasPrefix_def)
  ultimately show ?thesis
    unfolding skipPaths_def by blast
qed

section \<open>The byte formatter: the loop, the unit and the rendering\<close>

lemma fb_loop_char:
  "1024 ^ j \<le> sint n \<Longrightarrow> sint n < 1024 ^ Suc j \<Longrightarrow> fb_loop n dv ex = (dv * 1024 ^ j, ex + j)"
proof (induction j arbitrary: n dv ex)
  case 0
  then show ?case
    by (simp add: fb_loop.simps [of n] word_sle_eq)
next
  case (Suc j)
  have "(1024::int) \<le> 1024 ^ Suc j"
    by (rule self_le_power) simp_all
  with Suc.prems have ge: "1024 \<le> sint n"
    by linarith
  then have q: "sint (go_div n 1024) = sint n div 1024"
    by (simp add: sint_go_div_1024)
  have div_bounds: "y \<le> x div 1024 \<and> x div 1024 < z"
    if "1024 * y \<le> x" "x < 1024 * z" for x y z :: int
    using that by linarith
  have lo: "1024 ^ j \<le> sint n div 1024" and hi: "sint n div 1024 < 1024 ^ Suc j"
    using Suc.prems div_bounds [of "1024 ^ j" "sint n" "1024 ^ Suc j"] by simp_all
  have "fb_loop (go_div n 1024) (dv * 1024) (Suc ex) = (dv * 1024 * 1024 ^ j, Suc ex + j)"
    using Suc.IH [of "go_div n 1024"] lo hi q by simp
  then show ?case
    using ge by (simp add: fb_loop.simps [of n] word_sle_eq mult.assoc)
qed

lemma FormatBytes_small:
  "sint b < 1024 \<Longrightarrow> FormatBytes b = Some (string_of_int (sint b) @ '' B'')"
  by (simp add: FormatBytes_def word_sless_alt)

lemma unit_exp_le_5:
  fixes b :: int64
  assumes "1024 ^ Suc k \<le> sint b"
  shows "k \<le> 5"
proof (rule ccontr)
  assume "\<not> k \<le> 5"
  then have "(1024::int) ^ 7 \<le> 1024 ^ Suc k"
    by (intro power_increasing) simp_all
  moreover have "sint b < 2 ^ 63"
    using sint_less [of b] by simp
  ultimately show False
    using assms by simp
qed

lemma fb_loop_FormatBytes:
  assumes lo: "1024 ^ Suc k \<le> sint b" and hi: "sint b < 1024 ^ Suc (Suc k)"
  shows "fb_loop (go_div b 1024) 1024 0 = (1024 ^ Suc k, k)"
proof -
  have "(1024::int) \<le> 1024 ^ Suc k"
    by (rule self_le_power) simp_all
  with lo have "1024 \<le> sint b"
    by linarith
  then have q: "sint (go_div b 1024) = sint b div 1024"
    by (simp add: sint_go_div_1024)
  have div_bounds: "y \<le> x div 1024 \<and> x div 1024 < z"
    if "1024 * y \<le> x" "x < 1024 * z" for x y z :: int
    using that by linarith
  have "1024 ^ k \<le> sint (go_div b 1024)" "sint (go_div b 1024) < 1024 ^ Suc k"
    using lo hi div_bounds [of "1024 ^ k" "sint b" "1024 ^ Suc k"] q by simp_all
  then show ?thesis
    by (simp add: fb_loop_char)
qed

lemma FormatBytes_large:
  assumes lo: "1024 ^ Suc k \<le> sint b" and hi: "sint b < 1024 ^ Suc (Suc k)"
  shows "FormatBytes b =
    Some (fmt_1f (f64_div (f64_of_int64 b) (f64_of_int64 (1024 ^ Suc k))) @ '' '' @
          [''KMGTPE'' ! k] @ ''B'')"
proof -
  have "(1024::int) \<le> 1024 ^ Suc k"
    by (rule self_le_power) simp_all
  with lo have ge: "1024 \<le> sint b"
    by linarith
  have "k < 6"
    using unit_exp_le_5 [OF lo] by simp
  then have "string_index ''KMGTPE'' k = Some (''KMGTPE'' ! k)"
    by (simp add: string_index_def)
  then show ?thesis
    using ge fb_loop_FormatBytes [OF lo hi] by (simp add: FormatBytes_def word_sless_alt)
qed

lemma unit_exp_exists:
  fixes b :: int64
  assumes "1024 \<le> sint b"
  shows "\<exists>k. 1024 ^ Suc k \<le> sint b \<and> sint b < 1024 ^ Suc (Suc k)"
proof -
  have "\<exists>n. 1024 ^ n \<le> nat (sint b) \<and> nat (sint b) < 1024 ^ (n + 1)"
    using assms by (intro ex_power_ivl1) simp_all
  then obtain n where n: "1024 ^ n \<le> nat (sint b)" "nat (sint b) < 1024 ^ (n + 1)"
    by blast
  have "n \<noteq> 0"
    using n(2) assms by (cases n) auto
  then obtain k where k: "n = Suc k"
    by (cases n) auto
  have "int (1024 ^ n) \<le> sint b" "sint b < int (1024 ^ (n + 1))"
    using n assms by linarith+
  then show ?thesis
    unfolding k by (intro exI [of _ k]) simp
qed

text \<open>
  Claim C4. Below 1024 the result is the decimal number followed by \<^verbatim>\<open> B\<close>. From
  1024 on, with \<open>k\<close> the number of further divisions by 1024 that leave a quotient of
  at least 1 (\<open>1024 ^ (k + 1) \<le> n < 1024 ^ (k + 2)\<close>), the result is the quotient
  \<^verbatim>\<open>float64(n) / float64(1024 ^ (k + 1))\<close> to one decimal, a space, the \<open>k\<close>-th letter
  of \<^verbatim>\<open>KMGTPE\<close> and \<^verbatim>\<open>B\<close>. The seven boundary values render as the table says.
\<close>

theorem FormatBytes_spec:
  "(sint b < 1024 \<longrightarrow> FormatBytes b = Some (string_of_int (sint b) @ '' B''))
   \<and> (1024 ^ Suc k \<le> sint b \<and> sint b < 1024 ^ Suc (Suc k) \<longrightarrow>
        k < 6 \<and>
        FormatBytes b =
          Some (fmt_1f (f64_div (f64_of_int64 b) (f64_of_int64 (1024 ^ Suc k))) @ '' '' @
                [''KMGTPE'' ! k] @ ''B''))
   \<and> FormatBytes 0 = Some ''0 B'' \<and> FormatBytes 512 = Some ''512 B''
   \<and> FormatBytes 1024 = Some ''1.0 KB'' \<and> FormatBytes 1536 = Some ''1.5 KB''
   \<and> FormatBytes 1048576 = Some ''1.0 MB'' \<and> FormatBytes 1073741824 = Some ''1.0 GB''
   \<and> FormatBytes 1099511627776 = Some ''1.0 TB''"
proof -
  have small: "sint b < 1024 \<longrightarrow> FormatBytes b = Some (string_of_int (sint b) @ '' B'')"
    by (simp add: FormatBytes_small)
  have large: "1024 ^ Suc k \<le> sint b \<and> sint b < 1024 ^ Suc (Suc k) \<longrightarrow>
        k < 6 \<and>
        FormatBytes b =
          Some (fmt_1f (f64_div (f64_of_int64 b) (f64_of_int64 (1024 ^ Suc k))) @ '' '' @
                [''KMGTPE'' ! k] @ ''B'')"
    using unit_exp_le_5 [of k b] FormatBytes_large [of k b] by auto
  have t0: "FormatBytes 0 = Some ''0 B''"
    using FormatBytes_small [of 0] by (simp add: str_eval)
  have t1: "FormatBytes 512 = Some ''512 B''"
    using FormatBytes_small [of 512] by (simp add: str_eval)
  have t2: "FormatBytes 1024 = Some ''1.0 KB''"
    using FormatBytes_large [of 0 1024] by (simp add: f64_eval str_eval)
  have t3: "FormatBytes 1536 = Some ''1.5 KB''"
    using FormatBytes_large [of 0 1536] by (simp add: f64_eval str_eval)
  have t4: "FormatBytes 1048576 = Some ''1.0 MB''"
    using FormatBytes_large [of 1 1048576] by (simp add: f64_eval str_eval)
  have t5: "FormatBytes 1073741824 = Some ''1.0 GB''"
    using FormatBytes_large [of 2 1073741824] by (simp add: f64_eval str_eval)
  have t6: "FormatBytes 1099511627776 = Some ''1.0 TB''"
    using FormatBytes_large [of 3 1099511627776] by (simp add: f64_eval str_eval)
  from small large t0 t1 t2 t3 t4 t5 t6 show ?thesis
    by (intro conjI)
qed

theorem FormatBytes_spec_witness:
  "sint (1023 :: int64) < 1024 \<and> FormatBytes 1023 = Some ''1023 B''
   \<and> (1024::int) ^ Suc 0 \<le> sint (1048575 :: int64) \<and> sint (1048575 :: int64) < 1024 ^ Suc (Suc 0)
   \<and> FormatBytes 1048575 = Some ''1024.0 KB''"
  using FormatBytes_spec [of 1023 0] FormatBytes_spec [of 1048575 0]
  by (simp add: f64_eval str_eval)

text \<open>
  Claim C9. \<^verbatim>\<open>FormatBytes\<close> returns a string for every \<^verbatim>\<open>int64\<close>: it never panics.
  A negative input takes the first branch and renders as the number followed by
  \<^verbatim>\<open> B\<close> (\<^verbatim>\<open>-5 B\<close> for \<open>-5\<close>). For an input of at least 1024 the exponent the loop
  computes is at most 5, so the index into \<^verbatim>\<open>KMGTPE\<close> is in range.
\<close>

theorem FormatBytes_total:
  "(\<exists>s. FormatBytes b = Some s)
   \<and> (sint b < 0 \<longrightarrow> FormatBytes b = Some (string_of_int (sint b) @ '' B''))
   \<and> (1024 \<le> sint b \<longrightarrow>
        snd (fb_loop (go_div b 1024) 1024 0) \<le> 5 \<and>
        string_index ''KMGTPE'' (snd (fb_loop (go_div b 1024) 1024 0)) \<noteq> None)
   \<and> FormatBytes (- 5) = Some ''-5 B''"
proof -
  have ex: "\<exists>s. FormatBytes b = Some s"
  proof (cases "sint b < 1024")
    case True
    then show ?thesis
      by (simp add: FormatBytes_small)
  next
    case False
    then obtain k where "1024 ^ Suc k \<le> sint b" "sint b < 1024 ^ Suc (Suc k)"
      using unit_exp_exists [of b] by auto
    then show ?thesis
      by (simp add: FormatBytes_large)
  qed
  have neg: "sint b < 0 \<longrightarrow> FormatBytes b = Some (string_of_int (sint b) @ '' B'')"
    by (simp add: FormatBytes_small)
  have idx: "1024 \<le> sint b \<longrightarrow>
        snd (fb_loop (go_div b 1024) 1024 0) \<le> 5 \<and>
        string_index ''KMGTPE'' (snd (fb_loop (go_div b 1024) 1024 0)) \<noteq> None"
  proof
    assume "1024 \<le> sint b"
    then obtain k where k: "1024 ^ Suc k \<le> sint b" "sint b < 1024 ^ Suc (Suc k)"
      using unit_exp_exists [of b] by auto
    have "k \<le> 5"
      using unit_exp_le_5 [OF k(1)] .
    then show "snd (fb_loop (go_div b 1024) 1024 0) \<le> 5 \<and>
        string_index ''KMGTPE'' (snd (fb_loop (go_div b 1024) 1024 0)) \<noteq> None"
      using fb_loop_FormatBytes [OF k] by (simp add: string_index_def)
  qed
  have m5: "FormatBytes (- 5) = Some ''-5 B''"
    using FormatBytes_small [of "- 5"] by (simp add: str_eval)
  from ex neg idx m5 show ?thesis
    by (intro conjI)
qed

theorem FormatBytes_total_witness:
  "sint (- 9223372036854775808 :: int64) < 0
   \<and> FormatBytes (- 9223372036854775808) = Some ''-9223372036854775808 B''
   \<and> 1024 \<le> sint (9223372036854775807 :: int64)
   \<and> snd (fb_loop (go_div 9223372036854775807 1024) 1024 0) \<le> 5"
  using FormatBytes_total [of "- 9223372036854775808"] FormatBytes_total [of 9223372036854775807]
  by (simp add: str_eval)

section \<open>The path processor on one path\<close>

text \<open>
  Claim C1. When the stat succeeds, \<^verbatim>\<open>ProcessPath\<close> adds 1 to \<open>dirCount\<close> for a
  directory, and otherwise adds 1 to \<open>fileCount\<close> and the size to \<open>bytesScanned\<close>;
  independently it adds 1 to \<open>skippedCount\<close> when \<^verbatim>\<open>ShouldSkipPath\<close> holds of the
  path; \<open>errorCount\<close> stays. On a fresh scanner, one regular file of 13 bytes gives
  \<open>fileCount = 1\<close> and \<open>bytesScanned = 13\<close>.
\<close>

theorem ProcessPath_counts:
  assumes "Lstat path = Inr info"
  shows "dirCount (ProcessPath Lstat path s) = dirCount s + (if IsDir info then 1 else 0)
    \<and> fileCount (ProcessPath Lstat path s) = fileCount s + (if IsDir info then 0 else 1)
    \<and> bytesScanned (ProcessPath Lstat path s) =
        bytesScanned s + (if IsDir info then 0 else Size info)
    \<and> skippedCount (ProcessPath Lstat path s) =
        skippedCount s + (if ShouldSkipPath path then 1 else 0)
    \<and> errorCount (ProcessPath Lstat path s) = errorCount s
    \<and> (info = \<lparr>IsDir = False, Size = 13\<rparr> \<longrightarrow>
         fileCount (ProcessPath Lstat path (NewScanner now gomaxprocs)) = 1 \<and>
         bytesScanned (ProcessPath Lstat path (NewScanner now gomaxprocs)) = 13)"
  using assms by (simp add: ProcessPath_def NewScanner_def Let_def)

text \<open>
  The temporary file of the package's test lies under \<^verbatim>\<open>/tmp\<close>: it is counted as a
  file and marked skipped at once.
\<close>

theorem ProcessPath_counts_witness:
  "fileCount (ProcessPath (\<lambda>p. Inr \<lparr>IsDir = False, Size = 13\<rparr>) ''/tmp/test-file''
     (NewScanner 0 4)) = 1
   \<and> bytesScanned (ProcessPath (\<lambda>p. Inr \<lparr>IsDir = False, Size = 13\<rparr>) ''/tmp/test-file''
     (NewScanner 0 4)) = 13
   \<and> skippedCount (ProcessPath (\<lambda>p. Inr \<lparr>IsDir = False, Size = 13\<rparr>) ''/tmp/test-file''
     (NewScanner 0 4)) = 1
   \<and> dirCount (ProcessPath (\<lambda>p. Inr \<lparr>IsDir = False, Size = 13\<rparr>) ''/tmp/test-file''
     (NewScanner 0 4)) = 0"
  using ProcessPath_counts [of "\<lambda>p. Inr \<lparr>IsDir = False, Size = 13\<rparr>" "''/tmp/test-file''"
      "\<lparr>IsDir = False, Size = 13\<rparr>" "NewScanner 0 4" 0 4]
  by (simp add: NewScanner_def ShouldSkipPath_def skipPaths_def HasPrefix_def)

text \<open>
  Claim C3, as the code has it. When the stat fails, \<^verbatim>\<open>ProcessPath\<close> adds 1 to
  \<open>errorCount\<close>, sets \<open>lastError\<close> to \<^verbatim>\<open>Error getting info for PATH: DETAIL\<close> and
  changes nothing else. (The claim's wording of the message,
  \<^verbatim>\<open>error accessing stat for PATH: DETAIL\<close>, is not the code's.)
\<close>

theorem ProcessPath_stat_failure:
  assumes "Lstat path = Inl err"
  shows "ProcessPath Lstat path s =
      s\<lparr>errorCount := errorCount s + 1,
        lastError := ''Error getting info for '' @ path @ '': '' @ err\<rparr>
    \<and> errorCount (ProcessPath Lstat path s) = errorCount s + 1
    \<and> lastError (ProcessPath Lstat path s) = ''Error getting info for '' @ path @ '': '' @ err
    \<and> fileCount (ProcessPath Lstat path s) = fileCount s
    \<and> dirCount (ProcessPath Lstat path s) = dirCount s
    \<and> skippedCount (ProcessPath Lstat path s) = skippedCount s
    \<and> bytesScanned (ProcessPath Lstat path s) = bytesScanned s"
  using assms by (simp add: ProcessPath_def setLastError_def)

theorem ProcessPath_stat_failure_witness:
  "errorCount (ProcessPath (\<lambda>p. Inl ''lstat /tmp/gone: no such file or directory'') ''/tmp/gone''
     (NewScanner 0 4)) = 1
   \<and> skippedCount (ProcessPath (\<lambda>p. Inl ''lstat /tmp/gone: no such file or directory'')
     ''/tmp/gone'' (NewScanner 0 4)) = 0
   \<and> lastError (ProcessPath (\<lambda>p. Inl ''lstat /tmp/gone: no such file or directory'') ''/tmp/gone''
     (NewScanner 0 4)) =
     ''Error getting info for /tmp/gone: lstat /tmp/gone: no such file or directory''"
  using ProcessPath_stat_failure [of "\<lambda>p. Inl ''lstat /tmp/gone: no such file or directory''"
      "''/tmp/gone''" "''lstat /tmp/gone: no such file or directory''" "NewScanner 0 4"]
  by (simp add: NewScanner_def)

theorem ProcessPath_stat_failure_message_counterexample:
  "lastError (ProcessPath (\<lambda>p. Inl ''lstat /tmp/gone: no such file or directory'') ''/tmp/gone''
     (NewScanner 0 4)) \<noteq>
   ''error accessing stat for /tmp/gone: lstat /tmp/gone: no such file or directory''"
  by (simp add: ProcessPath_def setLastError_def NewScanner_def)

section \<open>The invariant of a scan that is not cancelled\<close>

lemma reachable_pos: "0 < reachable node"
  by (cases node) simp_all



lemma walk_err_reachable: "walk_err node = Some e \<Longrightarrow> reachable node = 1"
  by (cases node) simp_all

lemma next_entry_None: "next_entry fr = None \<Longrightarrow> frames_entries fr = 0"
  by (induction fr rule: next_entry.induct) (simp_all add: frames_entries_def)

lemma next_entry_Some:
  "next_entry fr = Some ((path, node), fr') \<Longrightarrow> frames_entries fr = reachable node + frames_entries fr'"
  by (induction fr rule: next_entry.induct) (auto simp: frames_entries_def)

lemma resume_nil_entries:
  "frames_entries (resume False path node fr) = reachable node - 1 + frames_entries fr"
  by (cases node) (simp_all add: frames_entries_def comp_def)

lemma counted_ProcessPath: "counted (ProcessPath Lstat path s) = counted s + 1"
  by (simp add: ProcessPath_def counted_def setLastError_def Let_def split: sum.splits)

lemma counted_error:
  "counted (setLastError msg (s\<lparr>errorCount := errorCount s + 1\<rparr>)) = counted s + 1"
  by (simp add: counted_def setLastError_def)

lemma counted_setCurrentPath: "counted (setCurrentPath path s) = counted s"
  by (simp add: counted_def setCurrentPath_def)

lemma cancelled_setCurrentPath: "cancelled (setCurrentPath path s) = cancelled s"
  by (simp add: setCurrentPath_def)

lemma cancelled_error:
  "cancelled (setLastError msg (s\<lparr>errorCount := errorCount s + 1\<rparr>)) = cancelled s"
  by (simp add: setLastError_def)

lemma cancelled_ProcessPath: "cancelled (ProcessPath Lstat path s) = cancelled s"
  by (simp add: ProcessPath_def setLastError_def Let_def split: sum.splits)

lemma scan_inv_walkDirectory_step:
  assumes "scan_inv K st"
  shows "scan_inv K (walkDirectory_step pick st)"
proof (cases "walker st")
  case (Walking fr)
  show ?thesis
  proof (cases "next_entry fr")
    case None
    with Walking assms show ?thesis
      by (auto simp: scan_inv_def walkDirectory_step_def dest: next_entry_None)
  next
    case (Some a)
    then obtain path node fr' where a: "next_entry fr = Some ((path, node), fr')"
      by (cases a) auto
    note ne = next_entry_Some [OF a]
    show ?thesis
    proof (cases "walk_err node")
      case None
      with Walking a ne assms reachable_pos [of node] show ?thesis
        by (auto simp: scan_inv_def walkDirectory_step_def walkFn_enter_def counted_setCurrentPath
            cancelled_setCurrentPath)
    next
      case (Some e)
      with Walking a ne assms walk_err_reachable [of node e] resume_nil_entries [of path node fr']
      show ?thesis
        by (auto simp: scan_inv_def walkDirectory_step_def walkFn_enter_def counted_error
            cancelled_error add.assoc)
    qed
  qed
next
  case (Sending path node fr)
  with assms resume_nil_entries [of path node fr] show ?thesis
    by (auto simp: scan_inv_def walkDirectory_step_def ac_simps)
next
  case Returned
  with assms show ?thesis
    by (simp add: walkDirectory_step_def)
qed

lemma scan_inv_worker_step:
  assumes "scan_inv K st"
  shows "scan_inv K (worker_step i pick Lstat st)"
proof (cases "i < length (workers st) \<and> workers st ! i")
  case False
  with assms show ?thesis
    by (auto simp: worker_step_def)
next
  case True
  then have run: "True \<in> set (workers st)"
    by (metis nth_mem)
  show ?thesis
  proof (cases "pathChan st")
    case Nil
    with True assms show ?thesis
      by (auto simp: scan_inv_def worker_step_def dest: set_update_subset_insert [THEN subsetD])
  next
    case (Cons path rest)
    with True assms have "False \<notin> set (workers st)"
      by (auto simp: scan_inv_def)
    with Cons True assms show ?thesis
      by (auto simp: scan_inv_def worker_step_def counted_ProcessPath cancelled_ProcessPath
          add.assoc)
  qed
qed

lemma scan_inv_run:
  "scan_inv K st \<Longrightarrow> StopCall \<notin> set sched \<Longrightarrow> scan_inv K (run sched st)"
proof (induction sched arbitrary: st)
  case Nil
  then show ?case by simp
next
  case (Cons a sched)
  from Cons.prems have "scan_inv K (step a st)"
    by (cases a) (simp_all add: scan_inv_walkDirectory_step scan_inv_worker_step)
  with Cons show ?case
    by simp
qed

lemma scan_inv_init:
  "scan_inv (reachable tree) (Start_init (NewScanner now g) rootPath tree)"
  using reachable_pos [of tree]
  by (simp add: scan_inv_def Start_init_def NewScanner_def counted_def frames_entries_def)

lemma length_workers_step: "length (workers (step a st)) = length (workers st)"
  by (cases a)
    (auto simp: walkDirectory_step_def worker_step_def walkFn_enter_def
      split: walker.splits option.splits prod.splits walkfn.splits list.splits)

lemma length_workers_run: "length (workers (run sched st)) = length (workers st)"
  by (induction sched arbitrary: st) (simp_all add: length_workers_step)

section \<open>Facts about steps and runs\<close>

lemmas scan_eval = walkDirectory_step_def worker_step_def walkFn_enter_def Start_init_def NewScanner_def
  setCurrentPath_def setLastError_def Stop_def Join_def Clean_def


lemma scan_done:
  assumes inv: "scan_inv K st" and fin: "wg_done st" and w: "workers st \<noteq> []"
  shows "walker st = Returned \<and> pathChan st = [] \<and> chanClosed st
    \<and> length (visited st) = K \<and> counted (sc st) = of_nat K"
proof -
  obtain b where "b \<in> set (workers st)"
    using w by (cases "workers st") auto
  then have "False \<in> set (workers st)"
    using fin by (cases b) (auto simp: wg_done_def)
  with inv have *: "chanClosed st" "pathChan st = []" "walker st = Returned"
    by (auto simp: scan_inv_def)
  with inv show ?thesis
    by (auto simp: scan_inv_def)
qed

lemma cancelled_step: "cancelled (sc st) \<Longrightarrow> cancelled (sc (step a st))"
  by (cases a)
    (auto simp: walkDirectory_step_def worker_step_def walkFn_enter_def Stop_def cancelled_ProcessPath
      split: walker.splits option.splits list.splits)

lemma cancelled_run: "cancelled (sc st) \<Longrightarrow> cancelled (sc (run sched st))"
  by (induction sched arbitrary: st) (simp_all add: cancelled_step)

lemma sent_step_cancelled:
  "cancelled (sc st) \<Longrightarrow>
     length (sent (step a st)) + in_flight (walker (step a st))
       \<le> length (sent st) + in_flight (walker st)"
  by (cases a)
    (auto simp: walkDirectory_step_def worker_step_def walkFn_enter_def Stop_def
      split: walker.splits option.splits list.splits)

lemma sent_run_cancelled:
  "cancelled (sc st) \<Longrightarrow>
     length (sent (run sched st)) + in_flight (walker (run sched st))
       \<le> length (sent st) + in_flight (walker st)"
proof (induction sched arbitrary: st)
  case Nil
  then show ?case by simp
next
  case (Cons a sched)
  from Cons.prems have "cancelled (sc (step a st))"
    by (rule cancelled_step)
  from Cons.IH [OF this] sent_step_cancelled [OF Cons.prems, of a] show ?case
    by simp
qed

lemma resume_skip_entries: "frames_entries (resume True path node fr) \<le> frames_entries fr"
  by (cases node; cases fr) (simp_all add: frames_entries_def)

lemma Stop_Stop: "Stop (Stop s) = Stop s"
  by (simp add: Stop_def)

lemma run_StopCalls: "run (replicate (Suc n) StopCall) st = step StopCall st"
  by (induction n) (simp_all add: Stop_Stop)

lemma StopCall_again: "cancelled (sc st) \<Longrightarrow> step StopCall st = st"
  by (simp add: Stop_def)

lemma run_without_StopCalls:
  "cancelled (sc st) \<Longrightarrow> run (filter (\<lambda>a. a \<noteq> StopCall) sched) st = run sched st"
proof (induction sched arbitrary: st)
  case Nil
  then show ?case by simp
next
  case (Cons a sched)
  show ?case
  proof (cases "a = StopCall")
    case True
    with Cons show ?thesis
      by (simp add: StopCall_again del: step.simps)
  next
    case False
    with Cons.IH [of "step a st"] Cons.prems show ?thesis
      by (simp add: cancelled_step del: step.simps)
  qed
qed

lemma startTime_step: "startTime (sc (step a st)) = startTime (sc st)"
  by (cases a)
    (auto simp: walkDirectory_step_def worker_step_def walkFn_enter_def Stop_def ProcessPath_def
      setLastError_def setCurrentPath_def Let_def
      split: walker.splits option.splits list.splits sum.splits)

lemma startTime_run: "startTime (sc (run sched st)) = startTime (sc st)"
  by (induction sched arbitrary: st) (simp_all add: startTime_step)

section \<open>The example runs\<close>

lemma demo_run:
  "run demo_sched (Start_init (NewScanner t0 2) ''/r'' demo_tree) =
     \<lparr>sc = \<lparr>fileCount = 1, dirCount = 1, errorCount = 1, skippedCount = 0, bytesScanned = 12,
             startTime = t0, cancelled = False, workerCount = 4,
             lastError = ''Error accessing /r/g: lstat /r/g: permission denied'',
             currentPath = ''/r/f''\<rparr>,
      walker = Returned, pathChan = [], chanClosed = True, workers = [False, False, False, False],
      fsops = [OpLstat ''/r'', OpReadDir ''/r'', OpLstat ''/r/f'', OpLstat ''/r/g''],
      visited = [''/r'', ''/r/f'', ''/r/g''], sent = [''/r'', ''/r/f'']\<rparr>"
  by (simp add: demo_sched_def demo_tree_def demo_fs_def scan_eval ProcessPath_def
      ShouldSkipPath_def skipPaths_def HasPrefix_def eval_nat_numeral)

lemma walk_only_run:
  "run walk_only (Start_init (NewScanner 0 2) ''/r'' failing_tree) =
     \<lparr>sc = \<lparr>fileCount = 0, dirCount = 0, errorCount = 2, skippedCount = 0, bytesScanned = 0,
             startTime = 0, cancelled = False, workerCount = 4,
             lastError = ''Error accessing /r/b: lstat /r/b: no such file or directory'',
             currentPath = ''/r/c''\<rparr>,
      walker = Returned, pathChan = [''/r'', ''/r/c''], chanClosed = True,
      workers = [True, True, True, True],
      fsops = [OpLstat ''/r'', OpReadDir ''/r'', OpLstat ''/r/a'', OpReadDir ''/r/a'',
               OpLstat ''/r/b'', OpLstat ''/r/c''],
      visited = [''/r'', ''/r/a'', ''/r/b'', ''/r/c''], sent = [''/r'', ''/r/c'']\<rparr>"
  by (simp add: walk_only_def failing_tree_def scan_eval eval_nat_numeral)

lemma cancel_run:
  "run cancel_sched (Start_init (NewScanner 0 2) ''/r'' cancel_tree) =
     \<lparr>sc = \<lparr>fileCount = 0, dirCount = 0, errorCount = 0, skippedCount = 0, bytesScanned = 0,
             startTime = 0, cancelled = True, workerCount = 4, lastError = [],
             currentPath = ''/r''\<rparr>,
      walker = Walking [[(''/r/a'', Dir [(''x'', File)]), (''/r/b'', Dir [(''y'', File)])], []],
      pathChan = [''/r''], chanClosed = False, workers = [True, True, True, True],
      fsops = [OpLstat ''/r'', OpReadDir ''/r''], visited = [''/r''], sent = [''/r'']\<rparr>"
  by (simp add: cancel_sched_def cancel_tree_def scan_eval eval_nat_numeral)

lemma fps_demo: "fmt_1f (f64_div (f64_of_int64 1) (Seconds 4000)) = ''250000.0''"
  by (simp add: Seconds_def signed_divide_int_def signed_modulo_int_def f64_eval str_eval)


section \<open>A completed scan counts every entry it reaches once\<close>






section \<open>Errors of the walk do not stop it\<close>

text \<open>
  Claim C7, as the code has it. While the context is not cancelled, when \<^verbatim>\<open>Walk\<close>
  reports an entry with an error (a failed \<^verbatim>\<open>lstat\<close> or a directory it cannot
  read), the walk function adds 1 to \<open>errorCount\<close>, sets \<open>lastError\<close> and returns
  \<^verbatim>\<open>nil\<close>: the walker stands before the remaining siblings, with nothing sent and
  the channel open. Once the context is cancelled, the walk function returns before
  it looks at the error: the scanner stays as it is, and the walker stands before the
  remaining siblings all the same. In a run without a call of \<^verbatim>\<open>Stop\<close>, whatever
  fails, the walk function has been called with every entry that \<^verbatim>\<open>Walk\<close> reaches
  once \<^verbatim>\<open>Walk\<close> has returned, and \<^verbatim>\<open>Start\<close> returns only after that, with the
  channel drained.
\<close>

theorem walk_errors_do_not_abort:
  "(walker st = Walking fr \<and> next_entry fr = Some ((path, node), fr') \<and> walk_err node = Some err
      \<and> \<not> cancelled (sc st) \<longrightarrow>
      errorCount (sc (walkDirectory_step pick st)) = errorCount (sc st) + 1
      \<and> lastError (sc (walkDirectory_step pick st)) = ''Error accessing '' @ path @ '': '' @ err
      \<and> walker (walkDirectory_step pick st) = Walking fr'
      \<and> pathChan (walkDirectory_step pick st) = pathChan st
      \<and> chanClosed (walkDirectory_step pick st) = chanClosed st
      \<and> \<not> cancelled (sc (walkDirectory_step pick st)))
   \<and> (walker st = Walking fr \<and> next_entry fr = Some ((path, node), fr') \<and> walk_err node = Some err
      \<and> cancelled (sc st) \<longrightarrow>
      sc (walkDirectory_step pick st) = sc st
      \<and> walker (walkDirectory_step pick st) = Walking fr'
      \<and> pathChan (walkDirectory_step pick st) = pathChan st
      \<and> chanClosed (walkDirectory_step pick st) = chanClosed st)
   \<and> (StopCall \<notin> set sched
      \<and> walker (run sched (Start_init (NewScanner t0 gomaxprocs) rootPath tree)) = Returned \<longrightarrow>
      length (visited (run sched (Start_init (NewScanner t0 gomaxprocs) rootPath tree)))
        = reachable tree)
   \<and> (StopCall \<notin> set sched \<and> 0 < gomaxprocs
      \<and> wg_done (run sched (Start_init (NewScanner t0 gomaxprocs) rootPath tree)) \<longrightarrow>
      walker (run sched (Start_init (NewScanner t0 gomaxprocs) rootPath tree)) = Returned
      \<and> pathChan (run sched (Start_init (NewScanner t0 gomaxprocs) rootPath tree)) = []
      \<and> length (visited (run sched (Start_init (NewScanner t0 gomaxprocs) rootPath tree)))
        = reachable tree)"
proof -
  let ?st = "run sched (Start_init (NewScanner t0 gomaxprocs) rootPath tree)"
  have local: "walker st = Walking fr \<and> next_entry fr = Some ((path, node), fr')
      \<and> walk_err node = Some err \<and> \<not> cancelled (sc st) \<longrightarrow>
      errorCount (sc (walkDirectory_step pick st)) = errorCount (sc st) + 1
      \<and> lastError (sc (walkDirectory_step pick st)) = ''Error accessing '' @ path @ '': '' @ err
      \<and> walker (walkDirectory_step pick st) = Walking fr'
      \<and> pathChan (walkDirectory_step pick st) = pathChan st
      \<and> chanClosed (walkDirectory_step pick st) = chanClosed st
      \<and> \<not> cancelled (sc (walkDirectory_step pick st))"
    by (cases node) (auto simp: walkDirectory_step_def walkFn_enter_def setLastError_def)
  have stopped: "walker st = Walking fr \<and> next_entry fr = Some ((path, node), fr')
      \<and> walk_err node = Some err \<and> cancelled (sc st) \<longrightarrow>
      sc (walkDirectory_step pick st) = sc st
      \<and> walker (walkDirectory_step pick st) = Walking fr'
      \<and> pathChan (walkDirectory_step pick st) = pathChan st
      \<and> chanClosed (walkDirectory_step pick st) = chanClosed st"
    by (cases node) (auto simp: walkDirectory_step_def walkFn_enter_def)
  have inv: "StopCall \<notin> set sched \<Longrightarrow> scan_inv (reachable tree) ?st"
    by (intro scan_inv_run scan_inv_init)
  have walk: "StopCall \<notin> set sched \<and> walker ?st = Returned \<longrightarrow>
      length (visited ?st) = reachable tree"
    using inv by (auto simp: scan_inv_def)
  have len: "length (workers ?st) = gomaxprocs * 2"
    by (simp add: length_workers_run Start_init_def NewScanner_def)
  have scan: "StopCall \<notin> set sched \<and> 0 < gomaxprocs \<and> wg_done ?st \<longrightarrow>
      walker ?st = Returned \<and> pathChan ?st = [] \<and> length (visited ?st) = reachable tree"
  proof (intro impI, elim conjE)
    assume a: "StopCall \<notin> set sched" "0 < gomaxprocs" "wg_done ?st"
    from len a(2) have "workers ?st \<noteq> []"
      by auto
    from scan_done [OF inv [OF a(1)] a(3) this]
    show "walker ?st = Returned \<and> pathChan ?st = [] \<and> length (visited ?st) = reachable tree"
      by simp
  qed
  from local stopped walk scan show ?thesis
    by (intro conjI)
qed

theorem walk_errors_do_not_abort_witness:
  "errorCount (sc (walkDirectory_step True (run [WalkerStep True, WalkerStep True]
       (Start_init (NewScanner 0 2) ''/r'' failing_tree)))) = 1
   \<and> walker (walkDirectory_step True (run [WalkerStep True, WalkerStep True]
       (Start_init (NewScanner 0 2) ''/r'' failing_tree))) =
     Walking [[(''/r/b'', NoStat ''lstat /r/b: no such file or directory''), (''/r/c'', File)], []]
   \<and> errorCount (sc (walkDirectory_step True (run [WalkerStep True, WalkerStep True, StopCall]
       (Start_init (NewScanner 0 2) ''/r'' failing_tree)))) = 0
   \<and> walker (walkDirectory_step True (run [WalkerStep True, WalkerStep True, StopCall]
       (Start_init (NewScanner 0 2) ''/r'' failing_tree))) =
     Walking [[(''/r/b'', NoStat ''lstat /r/b: no such file or directory''), (''/r/c'', File)], []]
   \<and> length (visited (run walk_only (Start_init (NewScanner 0 2) ''/r'' failing_tree))) = 4
   \<and> errorCount (sc (run walk_only (Start_init (NewScanner 0 2) ''/r'' failing_tree))) = 2"
proof -
  let ?st = "run [WalkerStep True, WalkerStep True] (Start_init (NewScanner 0 2) ''/r'' failing_tree)"
  let ?st2 = "run [WalkerStep True, WalkerStep True, StopCall]
      (Start_init (NewScanner 0 2) ''/r'' failing_tree)"
  let ?a = "DirNoRead ''open /r/a: permission denied'' [(''x'', File)]"
  let ?fr' = "[[(''/r/b'', NoStat ''lstat /r/b: no such file or directory''), (''/r/c'', File)], []]"
  let ?fr = "[[(''/r/a'', ?a), (''/r/b'', NoStat ''lstat /r/b: no such file or directory''),
      (''/r/c'', File)], []]"
  have st: "walker ?st = Walking ?fr" "\<not> cancelled (sc ?st)" "errorCount (sc ?st) = 0"
    by (simp_all add: failing_tree_def scan_eval)
  have st2: "walker ?st2 = Walking ?fr" "cancelled (sc ?st2)" "errorCount (sc ?st2) = 0"
    by (simp_all add: failing_tree_def scan_eval)
  have ne: "next_entry ?fr = Some ((''/r/a'', ?a), ?fr')"
    by simp
  have we: "walk_err ?a = Some ''open /r/a: permission denied''"
    by simp
  have s: "StopCall \<notin> set walk_only"
    by (simp add: walk_only_def)
  have w: "walker (run walk_only (Start_init (NewScanner 0 2) ''/r'' failing_tree)) = Returned"
    by (simp add: walk_only_run)
  have e: "reachable failing_tree = 4"
    by (simp add: failing_tree_def)
  note inst = walk_errors_do_not_abort [of ?st ?fr "''/r/a''" ?a ?fr'
      "''open /r/a: permission denied''" True walk_only 0 2 "''/r''" failing_tree]
  note inst2 = walk_errors_do_not_abort [of ?st2 ?fr "''/r/a''" ?a ?fr'
      "''open /r/a: permission denied''" True walk_only 0 2 "''/r''" failing_tree]
  from inst st(1,2) ne we
  have "errorCount (sc (walkDirectory_step True ?st)) = errorCount (sc ?st) + 1"
    and "walker (walkDirectory_step True ?st) = Walking ?fr'"
    by blast+
  moreover from inst2 st2(1,2) ne we
  have "sc (walkDirectory_step True ?st2) = sc ?st2"
    and "walker (walkDirectory_step True ?st2) = Walking ?fr'"
    by blast+
  moreover from inst s w
  have "length (visited (run walk_only (Start_init (NewScanner 0 2) ''/r'' failing_tree)))
      = reachable failing_tree"
    by blast
  moreover have "errorCount (sc (run walk_only (Start_init (NewScanner 0 2) ''/r'' failing_tree))) = 2"
    by (simp add: walk_only_run)
  ultimately show ?thesis
    using st(3) st2(3) e by simp
qed

text \<open>
  The claim as stated, for every entry that cannot be visited, fails once \<^verbatim>\<open>Stop\<close>
  has been called: with the context cancelled after the root was sent, \<^verbatim>\<open>Walk\<close>
  reports the directory \<^verbatim>\<open>/r/a\<close> that cannot be read and the name \<^verbatim>\<open>/r/b\<close> whose
  \<^verbatim>\<open>lstat\<close> fails, and the walk function counts and records neither.
\<close>

theorem walk_error_after_Stop_counterexample:
  "cancelled (sc (run [WalkerStep True, WalkerStep True, StopCall]
       (Start_init (NewScanner 0 2) ''/r'' failing_tree)))
   \<and> visited (run [WalkerStep True, WalkerStep True, StopCall, WalkerStep True, WalkerStep True]
       (Start_init (NewScanner 0 2) ''/r'' failing_tree)) = [''/r'', ''/r/a'', ''/r/b'']
   \<and> errorCount (sc (run
       [WalkerStep True, WalkerStep True, StopCall, WalkerStep True, WalkerStep True]
       (Start_init (NewScanner 0 2) ''/r'' failing_tree))) = 0
   \<and> lastError (sc (run
       [WalkerStep True, WalkerStep True, StopCall, WalkerStep True, WalkerStep True]
       (Start_init (NewScanner 0 2) ''/r'' failing_tree))) = []"
  by (simp add: failing_tree_def scan_eval eval_nat_numeral)

section \<open>What the walker does once the context is cancelled\<close>

text \<open>
  Claim C6, as the code has it. The walk function checks \<^verbatim>\<open>ctx.Done()\<close> first, at
  every call (by then \<^verbatim>\<open>Walk\<close> has called \<^verbatim>\<open>lstat\<close> on the entry and, for a
  directory, has read it). When the context is cancelled at that check, the call
  leaves the scanner, the channel and the paths sent as they are and returns
  \<^verbatim>\<open>SkipDir\<close>; \<^verbatim>\<open>Walk\<close> then descends into nothing below that entry. Over any
  schedule from a state with the context cancelled, the number of paths sent grows
  by at most one: the path whose send was waiting already.
\<close>

theorem walker_observes_cancellation:
  "(walker st = Walking fr \<and> next_entry fr = Some ((path, node), fr') \<and> cancelled (sc st) \<longrightarrow>
      sc (walkDirectory_step pick st) = sc st
      \<and> pathChan (walkDirectory_step pick st) = pathChan st
      \<and> sent (walkDirectory_step pick st) = sent st
      \<and> in_flight (walker (walkDirectory_step pick st)) = 0
      \<and> unvisited (walker (walkDirectory_step pick st)) \<le> frames_entries fr')
   \<and> (cancelled (sc st) \<longrightarrow>
      length (sent (run sched st)) \<le> length (sent st) + in_flight (walker st))"
proof -
  have "walker st = Walking fr \<and> next_entry fr = Some ((path, node), fr') \<and> cancelled (sc st) \<longrightarrow>
      sc (walkDirectory_step pick st) = sc st
      \<and> pathChan (walkDirectory_step pick st) = pathChan st
      \<and> sent (walkDirectory_step pick st) = sent st
      \<and> in_flight (walker (walkDirectory_step pick st)) = 0
      \<and> unvisited (walker (walkDirectory_step pick st)) \<le> frames_entries fr'"
    using resume_skip_entries [of path node fr']
    by (auto simp: walkDirectory_step_def walkFn_enter_def)
  moreover have "cancelled (sc st) \<longrightarrow>
      length (sent (run sched st)) \<le> length (sent st) + in_flight (walker st)"
    using sent_run_cancelled [of st sched] by auto
  ultimately show ?thesis
    by (intro conjI)
qed

theorem walker_observes_cancellation_witness:
  "cancelled (sc (run cancel_sched (Start_init (NewScanner 0 2) ''/r'' cancel_tree)))
   \<and> pathChan (walkDirectory_step True
         (run cancel_sched (Start_init (NewScanner 0 2) ''/r'' cancel_tree))) = [''/r'']
   \<and> unvisited (walker (walkDirectory_step True
         (run cancel_sched (Start_init (NewScanner 0 2) ''/r'' cancel_tree)))) \<le> 2
   \<and> length (sent (run [WalkerStep True, WalkerStep True, WorkerStep 0 True (\<lambda>p. Inl ''gone'')]
         (run cancel_sched (Start_init (NewScanner 0 2) ''/r'' cancel_tree)))) \<le> 1"
proof -
  let ?st = "run cancel_sched (Start_init (NewScanner 0 2) ''/r'' cancel_tree)"
  let ?fr = "[[(''/r/a'', Dir [(''x'', File)]), (''/r/b'', Dir [(''y'', File)])], []]"
  let ?fr' = "[[(''/r/b'', Dir [(''y'', File)])], []]"
  let ?sched = "[WalkerStep True, WalkerStep True, WorkerStep 0 True (\<lambda>p. Inl ''gone'')]"
  have st: "walker ?st = Walking ?fr" "cancelled (sc ?st)" "pathChan ?st = [''/r'']"
    "length (sent ?st) + in_flight (walker ?st) = 1"
    by (simp_all add: cancel_run)
  have ne: "next_entry ?fr = Some ((''/r/a'', Dir [(''x'', File)]), ?fr')"
    by simp
  have fe: "frames_entries ?fr' = 2"
    by (simp add: frames_entries_def)
  note inst = walker_observes_cancellation
    [of ?st ?fr "''/r/a''" "Dir [(''x'', File)]" ?fr' True ?sched]
  from inst st(1,2) ne
  have "pathChan (walkDirectory_step True ?st) = pathChan ?st"
    and "unvisited (walker (walkDirectory_step True ?st)) \<le> frames_entries ?fr'"
    by blast+
  moreover from inst st(2)
  have "length (sent (run ?sched ?st)) \<le> length (sent ?st) + in_flight (walker ?st)"
    by blast
  ultimately show ?thesis
    using st fe by simp
qed

text \<open>
  The claim as stated fails. With the context cancelled after the root was sent, the
  walk function returns \<^verbatim>\<open>SkipDir\<close> at \<^verbatim>\<open>/r/a\<close>, which \<^verbatim>\<open>Walk\<close> had already read;
  \<^verbatim>\<open>Walk\<close> does not return but goes on to the sibling \<^verbatim>\<open>/r/b\<close>, calls \<^verbatim>\<open>lstat\<close> on
  it and reads it. And a send that waits when \<^verbatim>\<open>Stop\<close> is called can still push its
  path: the root is sent after the cancellation.
\<close>

theorem walker_goes_on_after_cancellation_counterexample:
  "cancelled (sc (run cancel_sched (Start_init (NewScanner 0 2) ''/r'' cancel_tree)))
   \<and> fsops (run cancel_sched (Start_init (NewScanner 0 2) ''/r'' cancel_tree))
       = [OpLstat ''/r'', OpReadDir ''/r'']
   \<and> walker (run (cancel_sched @ [WalkerStep True]) (Start_init (NewScanner 0 2) ''/r'' cancel_tree))
       = Walking [[(''/r/b'', Dir [(''y'', File)])], []]
   \<and> fsops (run (cancel_sched @ [WalkerStep True, WalkerStep True])
        (Start_init (NewScanner 0 2) ''/r'' cancel_tree))
       = [OpLstat ''/r'', OpReadDir ''/r'', OpLstat ''/r/a'', OpReadDir ''/r/a'',
          OpLstat ''/r/b'', OpReadDir ''/r/b'']
   \<and> visited (run (cancel_sched @ [WalkerStep True, WalkerStep True])
        (Start_init (NewScanner 0 2) ''/r'' cancel_tree))
       = [''/r'', ''/r/a'', ''/r/b'']
   \<and> sent (run [WalkerStep True, StopCall] (Start_init (NewScanner 0 2) ''/r'' cancel_tree)) = []
   \<and> sent (run [WalkerStep True, StopCall, WalkerStep True]
        (Start_init (NewScanner 0 2) ''/r'' cancel_tree)) = [''/r'']"
  by (simp add: cancel_sched_def cancel_tree_def scan_eval eval_nat_numeral)


section \<open>\<^verbatim>\<open>Stop\<close>\<close>

text \<open>
  Claim C8. \<^verbatim>\<open>Stop\<close> twice is \<^verbatim>\<open>Stop\<close> once, and so is any number of calls in a row
  during a scan; once the flag is raised a further call changes nothing, so the calls
  after the first can be struck from any schedule. It raises the flag, and the flag
  stays raised over every schedule.
  The call is a step that is enabled in every state and changes nothing but the
  flag: the channel keeps the paths it holds, and the walker and the workers stay
  where they are.
\<close>

theorem Stop_idempotent:
  "Stop (Stop s) = Stop s
   \<and> cancelled (Stop s)
   \<and> run (replicate (Suc n) StopCall) st = step StopCall st
   \<and> (cancelled (sc st) \<longrightarrow> step StopCall st = st)
   \<and> run sched (step StopCall st) = run (filter (\<lambda>a. a \<noteq> StopCall) sched) (step StopCall st)
   \<and> (cancelled (sc st) \<longrightarrow> cancelled (sc (run sched st)))
   \<and> cancelled (sc (run sched (step StopCall st)))
   \<and> step StopCall st = st\<lparr>sc := (sc st)\<lparr>cancelled := True\<rparr>\<rparr>
   \<and> pathChan (step StopCall st) = pathChan st
   \<and> workers (step StopCall st) = workers st
   \<and> walker (step StopCall st) = walker st"
proof -
  have c: "cancelled (sc (step StopCall st))"
    by (simp add: Stop_def)
  then have "cancelled (sc (run sched (step StopCall st)))"
    by (rule cancelled_run)
  moreover have "cancelled (sc st) \<longrightarrow> cancelled (sc (run sched st))"
    by (simp add: cancelled_run)
  moreover have "cancelled (sc st) \<longrightarrow> step StopCall st = st"
    using StopCall_again [of st] by blast
  moreover have
    "run sched (step StopCall st) = run (filter (\<lambda>a. a \<noteq> StopCall) sched) (step StopCall st)"
    using run_without_StopCalls [OF c, of sched] by simp
  moreover have "step StopCall st = st\<lparr>sc := (sc st)\<lparr>cancelled := True\<rparr>\<rparr>"
    "pathChan (step StopCall st) = pathChan st" "workers (step StopCall st) = workers st"
    "walker (step StopCall st) = walker st" "cancelled (Stop s)"
    by (simp_all add: Stop_def)
  ultimately show ?thesis
    using Stop_Stop [of s] run_StopCalls [of n st] by (intro conjI)
qed

theorem Stop_idempotent_witness:
  "cancelled (sc (step StopCall (Start_init (NewScanner 0 2) ''/r'' demo_tree)))
   \<and> step StopCall (step StopCall (Start_init (NewScanner 0 2) ''/r'' demo_tree))
       = step StopCall (Start_init (NewScanner 0 2) ''/r'' demo_tree)
   \<and> cancelled (sc (run demo_sched (step StopCall (Start_init (NewScanner 0 2) ''/r'' demo_tree))))
   \<and> run [StopCall, StopCall, StopCall] (Start_init (NewScanner 0 2) ''/r'' demo_tree)
       = run [StopCall] (Start_init (NewScanner 0 2) ''/r'' demo_tree)"
proof -
  let ?st = "step StopCall (Start_init (NewScanner 0 2) ''/r'' demo_tree)"
  have c: "cancelled (sc ?st)"
    by (simp add: Stop_def)
  from Stop_idempotent [of _ _ ?st demo_sched] c
  have "cancelled (sc (run demo_sched ?st))" and "step StopCall ?st = ?st"
    by blast+
  moreover from Stop_idempotent [of _ 2 "Start_init (NewScanner 0 2) ''/r'' demo_tree"]
  have "run (replicate (Suc 2) StopCall) (Start_init (NewScanner 0 2) ''/r'' demo_tree)
      = step StopCall (Start_init (NewScanner 0 2) ''/r'' demo_tree)"
    by blast
  ultimately show ?thesis
    using c by (simp add: eval_nat_numeral Stop_Stop)
qed

section \<open>The duration counts from \<^verbatim>\<open>NewScanner\<close>\<close>

text \<open>
  Claim C10. \<^verbatim>\<open>NewScanner\<close> stores the clock reading of its own call as
  \<open>startTime\<close>, and no step of a scan changes it: the \<open>Duration\<close> of the result is
  the time since that reading, whenever \<^verbatim>\<open>Start\<close> was called in between
  (\<open>t_start\<close>), so it includes the time from the construction to the call of
  \<^verbatim>\<open>Start\<close>. \<open>FilesPerSecond\<close> is \<^verbatim>\<open>float64(fileCount)\<close> divided by the seconds of
  that duration.
\<close>

theorem Duration_counts_from_NewScanner:
  "startTime (NewScanner t0 gomaxprocs) = t0
   \<and> (Start (NewScanner t0 gomaxprocs) rootPath tree sched now = Some r \<longrightarrow>
        Duration r = time_Since now t0
        \<and> FilesPerSecond r = f64_div (f64_of_int64 (TotalFiles r)) (Seconds (Duration r))
        \<and> (t0 \<le> t_start \<and> t_start \<le> now \<and> now - t0 < 2 ^ 63 \<longrightarrow>
             Duration r = (t_start - t0) + (now - t_start)))"
proof -
  let ?st = "run sched (Start_init (NewScanner t0 gomaxprocs) rootPath tree)"
  have t: "startTime (sc ?st) = t0"
    by (simp add: startTime_run Start_init_def NewScanner_def)
  have "Start (NewScanner t0 gomaxprocs) rootPath tree sched now = Some r \<longrightarrow>
        Duration r = time_Since now t0
        \<and> FilesPerSecond r = f64_div (f64_of_int64 (TotalFiles r)) (Seconds (Duration r))
        \<and> (t0 \<le> t_start \<and> t_start \<le> now \<and> now - t0 < 2 ^ 63 \<longrightarrow>
             Duration r = (t_start - t0) + (now - t_start))"
  proof
    assume "Start (NewScanner t0 gomaxprocs) rootPath tree sched now = Some r"
    then have r: "r = Start_result now ?st"
      by (auto simp: Start_def Let_def split: if_splits)
    have d: "Duration r = time_Since now t0"
      by (simp add: r Start_result_def Let_def t)
    moreover have "FilesPerSecond r = f64_div (f64_of_int64 (TotalFiles r)) (Seconds (Duration r))"
      by (simp add: r Start_result_def Let_def)
    moreover have "t0 \<le> t_start \<and> t_start \<le> now \<and> now - t0 < 2 ^ 63 \<longrightarrow>
             Duration r = (t_start - t0) + (now - t_start)"
      by (auto simp: d time_Since_def)
    ultimately show "Duration r = time_Since now t0
        \<and> FilesPerSecond r = f64_div (f64_of_int64 (TotalFiles r)) (Seconds (Duration r))
        \<and> (t0 \<le> t_start \<and> t_start \<le> now \<and> now - t0 < 2 ^ 63 \<longrightarrow>
             Duration r = (t_start - t0) + (now - t_start))"
      by (intro conjI)
  qed
  moreover have "startTime (NewScanner t0 gomaxprocs) = t0"
    by (simp add: NewScanner_def)
  ultimately show ?thesis
    by (intro conjI)
qed

theorem Duration_counts_from_NewScanner_witness:
  "\<exists>r. Start (NewScanner 1000 2) ''/r'' demo_tree demo_sched 5000 = Some r
     \<and> Duration r = 4000 \<and> Duration r = (4000 - 1000) + (5000 - 4000)
     \<and> TotalFiles r = 1 \<and> fmt_1f (FilesPerSecond r) = ''250000.0''"
proof -
  let ?r = "Start_result 5000 (run demo_sched (Start_init (NewScanner 1000 2) ''/r'' demo_tree))"
  have r: "Start (NewScanner 1000 2) ''/r'' demo_tree demo_sched 5000 = Some ?r"
    by (simp add: Start_def demo_run wg_done_def Let_def)
  have f: "TotalFiles ?r = 1"
    by (simp add: Start_result_def demo_run Let_def)
  have t: "(1000::int) \<le> 4000 \<and> (4000::int) \<le> 5000 \<and> (5000::int) - 1000 < 2 ^ 63"
    by simp
  from Duration_counts_from_NewScanner [of 1000 2 "''/r''" demo_tree demo_sched 5000 ?r 4000] r t
  have d: "Duration ?r = (4000 - 1000) + (5000 - 4000)"
    and p: "FilesPerSecond ?r = f64_div (f64_of_int64 (TotalFiles ?r)) (Seconds (Duration ?r))"
    by blast+
  from d have "Duration ?r = 4000"
    by simp
  with p f have "fmt_1f (FilesPerSecond ?r) = ''250000.0''"
    by (simp add: fps_demo)
  with r f d show ?thesis
    by (intro exI [of _ ?r]) simp
qed

end
